theory Spec2Isabelle
  imports Main
begin

section \<open>exodus-gw: the publish model and link resolution\<close>

text \<open>
  A shallow embedding of \<^verbatim>\<open>src/exodus_gw/models/publish.py\<close>: the two mapped classes
  \<^verbatim>\<open>Publish\<close> and \<^verbatim>\<open>Item\<close>, the module constant \<^verbatim>\<open>LINK_ISOLATION\<close>, the method
  \<^verbatim>\<open>Publish.resolve_links\<close> and the mapper event handler \<^verbatim>\<open>set_updated\<close>.
\<close>

subsection \<open>Entity model\<close>

text \<open>
  A \<^verbatim>\<open>datetime\<close> is a point on a discrete time line. The primary keys are UUIDs kept
  as strings. The field \<^verbatim>\<open>id\<close> of either class is written with the class name in
  front (\<open>id\<close> is HOL's identity function), and so is \<^verbatim>\<open>updated\<close>, which both
  classes declare.
\<close>

type_synonym datetime = nat

record Publish =
  Publish_id :: string
  env :: string
  state :: string
  Publish_updated :: "datetime option"

record Item =
  Item_id :: string
  web_uri :: string
  object_key :: "string option"
  content_type :: "string option"
  link_to :: "string option"
  dirty :: bool
  Item_updated :: datetime
  publish_id :: string

text \<open>
  The session a publish is attached to: the rows of the two tables. An \<^verbatim>\<open>Item\<close>
  object of the session is identified by the position of its row, and a query returns
  rows in the order of the list.
\<close>

record session =
  publishes :: "Publish list"
  items :: "Item list"

text \<open>What \<^verbatim>\<open>raise HTTPException(status_code=..., detail=...)\<close> carries.\<close>

datatype http_exception = HTTPException (status_code: nat) (detail: string)

subsection \<open>The scope setting\<close>

text \<open>
  \<^verbatim>\<open>LINK_ISOLATION = (os.environ.get("EXODUS_GW_LINK_ISOLATION") or "1") == "1"\<close>.
  The right-hand side as a function of the environment: \<^verbatim>\<open>get\<close> gives \<^verbatim>\<open>None\<close> for
  a variable that is not set, and \<^verbatim>\<open>or\<close> replaces \<^verbatim>\<open>None\<close> and the empty string
  (both falsy) by \<^verbatim>\<open>"1"\<close>.
\<close>

definition LINK_ISOLATION :: "(string \<rightharpoonup> string) \<Rightarrow> bool" where
  "LINK_ISOLATION environ =
     ((case environ ''EXODUS_GW_LINK_ISOLATION'' of
         None \<Rightarrow> ''1''
       | Some v \<Rightarrow> if v = [] then ''1'' else v) = ''1'')"

text \<open>
  The assignment is a statement of the module body, so it runs when the module is
  imported; afterwards the value is a global of the module. A process holds its
  environment, which \<^verbatim>\<open>os.environ[k] = v\<close> changes, and the module global.
\<close>

record process =
  environ :: "string \<rightharpoonup> string"
  module_LINK_ISOLATION :: bool

definition import_module :: "(string \<rightharpoonup> string) \<Rightarrow> process" where
  "import_module e = \<lparr>environ = e, module_LINK_ISOLATION = LINK_ISOLATION e\<rparr>"

definition setenv :: "string \<Rightarrow> string \<Rightarrow> process \<Rightarrow> process" where
  "setenv k v p = p\<lparr>environ := (environ p)(k \<mapsto> v)\<rparr>"

subsection \<open>Link resolution\<close>

text \<open>Python's truth value of an optional string: \<^verbatim>\<open>None\<close> and \<^verbatim>\<open>""\<close> are falsy.\<close>

fun truthy :: "string option \<Rightarrow> bool" where
  "truthy None = False"
| "truthy (Some v) = (v \<noteq> [])"

text \<open>SQL's \<^verbatim>\<open>coalesce(x, d)\<close> on a nullable string column.\<close>

fun coalesce :: "string option \<Rightarrow> string \<Rightarrow> string" where
  "coalesce None d = d"
| "coalesce (Some v) d = v"

text \<open>
  The two filters of the first query:
  \<^verbatim>\<open>Item.publish_id == self.id\<close> and \<^verbatim>\<open>func.coalesce(Item.link_to, "") != ""\<close>.
\<close>

definition ln_filter :: "Publish \<Rightarrow> Item \<Rightarrow> bool" where
  "ln_filter self it =
     (publish_id it = Publish_id self \<and> coalesce (link_to it) [] \<noteq> [])"

text \<open>\<^verbatim>\<open>ln_items\<close>: the selected objects, as row positions.\<close>

definition ln_items :: "Publish \<Rightarrow> Item list \<Rightarrow> nat list" where
  "ln_items self db = filter (\<lambda>i. ln_filter self (db ! i)) [0..<length db]"

text \<open>\<^verbatim>\<open>ln_item_paths = [item.link_to for item in ln_items]\<close>\<close>

definition ln_item_paths :: "Publish \<Rightarrow> Item list \<Rightarrow> string option list" where
  "ln_item_paths self db = map (\<lambda>i. link_to (db ! i)) (ln_items self db)"

text \<open>
  The second query: \<^verbatim>\<open>Item.web_uri.in_(ln_item_paths)\<close>, and under
  \<^verbatim>\<open>LINK_ISOLATION\<close> also \<^verbatim>\<open>Item.publish_id == self.id\<close>. It yields the bundle
  \<^verbatim>\<open>(web_uri, object_key, content_type)\<close> of each row.
\<close>

definition query :: "bool \<Rightarrow> Publish \<Rightarrow> Item list \<Rightarrow> Item list" where
  "query link_isolation self db =
     (let q = filter (\<lambda>it. Some (web_uri it) \<in> set (ln_item_paths self db)) db
      in if link_isolation then filter (\<lambda>it. publish_id it = Publish_id self) q else q)"

definition Bundle :: "Item \<Rightarrow> string \<times> string option \<times> string option" where
  "Bundle it = (web_uri it, object_key it, content_type it)"

text \<open>
  The dict comprehension: one entry per row, a later row replacing an earlier one with
  the same \<^verbatim>\<open>web_uri\<close>. The value \<^verbatim>\<open>{"object_key": k, "content_type": t}\<close> is the
  pair \<open>(k, t)\<close>.
\<close>

definition matches ::
  "(string \<times> string option \<times> string option) list \<Rightarrow> (string \<rightharpoonup> string option \<times> string option)" where
  "matches rows = foldl (\<lambda>m (u, k, t). m(u \<mapsto> (k, t))) Map.empty rows"

text \<open>\<^verbatim>\<open>matches.get(ln_item.link_to)\<close>: every key is a string, so \<^verbatim>\<open>None\<close> finds nothing.\<close>

fun dict_get :: "(string \<rightharpoonup> 'v) \<Rightarrow> string option \<Rightarrow> 'v option" where
  "dict_get m None = None"
| "dict_get m (Some u) = m u"

text \<open>Python's \<^verbatim>\<open>'%s' % x\<close> for an optional string.\<close>

fun str :: "string option \<Rightarrow> string" where
  "str None = ''None''"
| "str (Some v) = v"

text \<open>The exception of lines 95 to 102.\<close>

definition unresolved :: "Item \<Rightarrow> http_exception" where
  "unresolved ln_item =
     HTTPException 400
       (''Unable to resolve item object_key:'' @ [CHR 0x0A, CHR 0x09] @ ''URI: '' @
        [CHR 0x27] @ web_uri ln_item @ [CHR 0x27] @ [CHR 0x0A, CHR 0x09] @ ''Link: '' @
        [CHR 0x27] @ str (link_to ln_item) @ [CHR 0x27])"

text \<open>
  The loop over \<^verbatim>\<open>ln_items\<close>. A match is a dict of two entries, so \<^verbatim>\<open>not match\<close>
  holds only when the lookup found nothing. The raise leaves the objects assigned so far
  as they are: the result is the exception, or \<open>()\<close>, beside the rows at that moment.

  The list holds the column values of the session's objects, which are also what a query
  in the same session reads. The session's record of which objects were assigned to, and
  the flush that later writes them and runs \<^verbatim>\<open>set_updated\<close>, are not part of this
  state: a statement about the rows after a call is about the column values at the end
  of that call.
\<close>

fun resolve_loop ::
  "(string \<rightharpoonup> string option \<times> string option) \<Rightarrow> nat list \<Rightarrow> Item list \<Rightarrow>
     (http_exception + unit) \<times> Item list" where
  "resolve_loop m [] db = (Inr (), db)"
| "resolve_loop m (i # rest) db =
     (let ln_item = db ! i in
      case dict_get m (link_to ln_item) of
        None \<Rightarrow> (Inl (unresolved ln_item), db)
      | Some (k, t) \<Rightarrow>
          if \<not> truthy k \<or> \<not> truthy t then (Inl (unresolved ln_item), db)
          else resolve_loop m rest
                 (db[i := ln_item\<lparr>object_key := k, content_type := t\<rparr>]))"

definition resolve_links ::
  "bool \<Rightarrow> Publish \<Rightarrow> session \<Rightarrow> (http_exception + unit) \<times> session" where
  "resolve_links link_isolation self db =
     (let r = resolve_loop (matches (map Bundle (query link_isolation self (items db))))
                (ln_items self (items db)) (items db)
      in (fst r, db\<lparr>items := snd r\<rparr>))"

text \<open>A call in a process reads the module global.\<close>

definition call_resolve_links ::
  "process \<Rightarrow> Publish \<Rightarrow> session \<Rightarrow> (http_exception + unit) \<times> session" where
  "call_resolve_links p self db = resolve_links (module_LINK_ISOLATION p) self db"

subsection \<open>The timestamp handler\<close>

text \<open>
  \<^verbatim>\<open>set_updated\<close> takes a \<^verbatim>\<open>Publish\<close> or an \<^verbatim>\<open>Item\<close>; the first argument here is the
  value of \<^verbatim>\<open>datetime.utcnow()\<close> at the call.
\<close>

datatype entity = A_Publish Publish | An_Item Item

fun set_updated :: "datetime \<Rightarrow> entity \<Rightarrow> entity" where
  "set_updated now (A_Publish p) = A_Publish (p\<lparr>Publish_updated := Some now\<rparr>)"
| "set_updated now (An_Item it) = An_Item (it\<lparr>Item_updated := now\<rparr>)"

text \<open>
  The two decorators register the handler; the lower one is applied first. A mapper
  event runs the handlers registered for the entity's class and the event's name.
\<close>

datatype mapped_class = Publish_class | Item_class

datatype mapper_event = before_insert | before_update | before_delete

fun class_of :: "entity \<Rightarrow> mapped_class" where
  "class_of (A_Publish p) = Publish_class"
| "class_of (An_Item it) = Item_class"

definition listeners :: "(mapped_class \<times> mapper_event \<times> (datetime \<Rightarrow> entity \<Rightarrow> entity)) list" where
  "listeners = [(Item_class, before_update, set_updated), (Publish_class, before_update, set_updated)]"

definition handlers :: "mapper_event \<Rightarrow> entity \<Rightarrow> (datetime \<Rightarrow> entity \<Rightarrow> entity) list" where
  "handlers ev e =
     map (\<lambda>(c, ev', h). h) (filter (\<lambda>(c, ev', h). c = class_of e \<and> ev' = ev) listeners)"

definition dispatch :: "mapper_event \<Rightarrow> datetime \<Rightarrow> entity \<Rightarrow> entity" where
  "dispatch ev now e = fold (\<lambda>h. h now) (handlers ev e) e"

subsection \<open>Vocabulary of the statements\<close>

text \<open>
  A row is in the scope of the lookup when isolation is off, or when it belongs to the
  publish.
\<close>

definition in_scope :: "bool \<Rightarrow> Publish \<Rightarrow> Item \<Rightarrow> bool" where
  "in_scope link_isolation self it = (link_isolation \<longrightarrow> publish_id it = Publish_id self)"

text \<open>
  The link target of a URI: the row the lookup keeps for it, which is the last row in
  scope with that \<^verbatim>\<open>web_uri\<close>.
\<close>

definition link_target :: "bool \<Rightarrow> Publish \<Rightarrow> Item list \<Rightarrow> string \<Rightarrow> Item option" where
  "link_target link_isolation self db u =
     find (\<lambda>it. web_uri it = u \<and> in_scope link_isolation self it) (rev db)"

text \<open>A linked item resolves when its target exists and has both attributes non-empty.\<close>

definition resolvable :: "bool \<Rightarrow> Publish \<Rightarrow> Item list \<Rightarrow> Item \<Rightarrow> bool" where
  "resolvable link_isolation self db it =
     (case link_to it of
        None \<Rightarrow> False
      | Some u \<Rightarrow>
          (case link_target link_isolation self db u of
             None \<Rightarrow> False
           | Some a \<Rightarrow> truthy (object_key a) \<and> truthy (content_type a)))"

text \<open>
  The store's constraint \<^verbatim>\<open>items_publish_id_web_uri_key\<close>, for the rows in scope: no
  two of them share a \<^verbatim>\<open>web_uri\<close>. With isolation on this is the constraint for
  the publish's own rows.
\<close>

definition scope_unique :: "bool \<Rightarrow> Publish \<Rightarrow> Item list \<Rightarrow> bool" where
  "scope_unique link_isolation self db =
     distinct (map web_uri (filter (in_scope link_isolation self) db))"

text \<open>The test of the loop on one object, and the two assignments that follow it.\<close>

definition accepts :: "(string \<rightharpoonup> string option \<times> string option) \<Rightarrow> Item \<Rightarrow> bool" where
  "accepts m it =
     (case dict_get m (link_to it) of None \<Rightarrow> False | Some (k, t) \<Rightarrow> truthy k \<and> truthy t)"

definition resolved :: "(string \<rightharpoonup> string option \<times> string option) \<Rightarrow> Item \<Rightarrow> Item" where
  "resolved m it =
     (case dict_get m (link_to it) of
        None \<Rightarrow> it
      | Some (k, t) \<Rightarrow> it\<lparr>object_key := k, content_type := t\<rparr>)"

subsection \<open>Sample stores\<close>

text \<open>
  Two publishes and a few items: \<open>item_a\<close> carries its own attributes, \<open>item_b\<close>
  links to it, \<open>item_c\<close> links to \<open>item_b\<close>, and \<open>item_m\<close> links to a URI that
  no item has.
\<close>

definition pub1 :: Publish where
  "pub1 = \<lparr>Publish_id = ''p1'', env = ''test'', state = ''PENDING'', Publish_updated = None\<rparr>"

definition pub2 :: Publish where
  "pub2 = \<lparr>Publish_id = ''p2'', env = ''test'', state = ''PENDING'', Publish_updated = None\<rparr>"

definition item_a :: Item where
  "item_a = \<lparr>Item_id = ''i1'', web_uri = ''/a'', object_key = Some ''k1'', content_type = Some ''t1'',
     link_to = None, dirty = True, Item_updated = 0, publish_id = ''p1''\<rparr>"

definition item_b :: Item where
  "item_b = \<lparr>Item_id = ''i2'', web_uri = ''/b'', object_key = None, content_type = None,
     link_to = Some ''/a'', dirty = True, Item_updated = 0, publish_id = ''p1''\<rparr>"

definition item_c :: Item where
  "item_c = \<lparr>Item_id = ''i3'', web_uri = ''/c'', object_key = None, content_type = None,
     link_to = Some ''/b'', dirty = True, Item_updated = 0, publish_id = ''p1''\<rparr>"

definition item_m :: Item where
  "item_m = \<lparr>Item_id = ''i4'', web_uri = ''/m'', object_key = None, content_type = None,
     link_to = Some ''/missing'', dirty = True, Item_updated = 0, publish_id = ''p1''\<rparr>"

definition store_basic :: session where
  "store_basic = \<lparr>publishes = [pub1], items = [item_a, item_b]\<rparr>"

definition store_missing :: session where
  "store_missing = \<lparr>publishes = [pub1], items = [item_b, item_m, item_a, item_c]\<rparr>"

definition item_b2 :: Item where
  "item_b2 = \<lparr>Item_id = ''i5'', web_uri = ''/b'', object_key = None, content_type = None,
     link_to = Some ''/a'', dirty = True, Item_updated = 0, publish_id = ''p2''\<rparr>"

definition store_chain :: session where
  "store_chain = \<lparr>publishes = [pub1], items = [item_a, item_b, item_c]\<rparr>"

definition store_two :: session where
  "store_two = \<lparr>publishes = [pub1, pub2], items = [item_a, item_b2]\<rparr>"

text \<open>
  A link \<open>item_b_stale\<close> that still carries attributes of its own, in a chain with
  \<open>item_c\<close>.
\<close>

definition item_b_stale :: Item where
  "item_b_stale = \<lparr>Item_id = ''i6'', web_uri = ''/b'', object_key = Some ''k0'', content_type = Some ''t0'',
     link_to = Some ''/a'', dirty = True, Item_updated = 0, publish_id = ''p1''\<rparr>"

definition store_stale :: session where
  "store_stale = \<lparr>publishes = [pub1], items = [item_a, item_b_stale, item_c]\<rparr>"

text \<open>
  A publish with a dangling link beside \<open>item_a\<close> and \<open>item_b\<close>; an item of the
  second publish with the \<^verbatim>\<open>web_uri\<close> of \<open>item_a\<close>, and one with that of \<open>item_b\<close>.
\<close>

definition store_dangling :: session where
  "store_dangling = \<lparr>publishes = [pub1], items = [item_m, item_a, item_b]\<rparr>"

definition item_a2 :: Item where
  "item_a2 = \<lparr>Item_id = ''i7'', web_uri = ''/a'', object_key = Some ''k2'', content_type = Some ''t2'',
     link_to = None, dirty = True, Item_updated = 0, publish_id = ''p2''\<rparr>"

definition store_shadow :: session where
  "store_shadow = \<lparr>publishes = [pub1, pub2], items = [item_a, item_b, item_a2]\<rparr>"

definition item_b3 :: Item where
  "item_b3 = \<lparr>Item_id = ''i8'', web_uri = ''/b'', object_key = Some ''k2'', content_type = Some ''t2'',
     link_to = None, dirty = True, Item_updated = 0, publish_id = ''p2''\<rparr>"

definition store_other :: session where
  "store_other = \<lparr>publishes = [pub1, pub2], items = [item_a, item_b, item_c, item_b3]\<rparr>"

text \<open>A process that changes the setting after the module has been imported.\<close>

definition changed_process :: process where
  "changed_process = setenv ''EXODUS_GW_LINK_ISOLATION'' ''0'' (import_module Map.empty)"

section \<open>The lookup table and the loop\<close>

lemma find_snoc:
  "find P (xs @ [x]) = (case find P xs of None \<Rightarrow> (if P x then Some x else None) | Some y \<Rightarrow> Some y)"
  by (induction xs) auto

lemma foldl_matches:
  "foldl (\<lambda>m (u, k, t). m(u \<mapsto> (k, t))) m0 (map Bundle rows) u =
     (case find (\<lambda>it. web_uri it = u) (rev rows) of
        None \<Rightarrow> m0 u
      | Some a \<Rightarrow> Some (object_key a, content_type a))"
proof (induction rows arbitrary: m0)
  case Nil
  show ?case by simp
next
  case (Cons r rows)
  have "foldl (\<lambda>m (u, k, t). m(u \<mapsto> (k, t))) m0 (map Bundle (r # rows)) u =
        foldl (\<lambda>m (u, k, t). m(u \<mapsto> (k, t))) (m0(web_uri r \<mapsto> (object_key r, content_type r)))
          (map Bundle rows) u"
    by (simp add: Bundle_def)
  also have "\<dots> = (case find (\<lambda>it. web_uri it = u) (rev rows) of
        None \<Rightarrow> (m0(web_uri r \<mapsto> (object_key r, content_type r))) u
      | Some a \<Rightarrow> Some (object_key a, content_type a))"
    by (rule Cons.IH)
  also have "\<dots> = (case find (\<lambda>it. web_uri it = u) (rev (r # rows)) of
        None \<Rightarrow> m0 u
      | Some a \<Rightarrow> Some (object_key a, content_type a))"
    by (simp add: find_snoc split: option.split)
  finally show ?case .
qed

lemma matches_find:
  "matches (map Bundle rows) u =
     map_option (\<lambda>a. (object_key a, content_type a)) (find (\<lambda>it. web_uri it = u) (rev rows))"
  by (simp add: matches_def foldl_matches split: option.split)

lemma find_filter:
  "find P (filter Q xs) = find (\<lambda>x. Q x \<and> P x) xs"
  by (induction xs) auto

lemma query_conv:
  "query li self db =
     filter (\<lambda>it. Some (web_uri it) \<in> set (ln_item_paths self db) \<and> in_scope li self it) db"
  by (auto simp: query_def in_scope_def Let_def intro: filter_cong)

lemma matches_link_target:
  assumes "Some u \<in> set (ln_item_paths self db)"
  shows "matches (map Bundle (query li self db)) u =
     map_option (\<lambda>a. (object_key a, content_type a)) (link_target li self db u)"
proof -
  have "find (\<lambda>it. web_uri it = u) (rev (query li self db)) = link_target li self db u"
    unfolding query_conv rev_filter find_filter link_target_def
    using assms by (intro find_cong) auto
  then show ?thesis by (simp add: matches_find)
qed

lemma set_ln_items: "set (ln_items self db) = {i. i < length db \<and> ln_filter self (db ! i)}"
  by (auto simp: ln_items_def)

lemma distinct_ln_items: "distinct (ln_items self db)"
  by (simp add: ln_items_def)

lemma ln_filter_link:
  "ln_filter self it \<Longrightarrow> \<exists>u. link_to it = Some u \<and> u \<noteq> []"
  by (cases "link_to it") (auto simp: ln_filter_def)

lemma ln_items_path:
  "i < length db \<Longrightarrow> ln_filter self (db ! i) \<Longrightarrow> link_to (db ! i) \<in> set (ln_item_paths self db)"
  by (auto simp: ln_item_paths_def set_ln_items)

lemma accepts_resolve:
  "i < length db \<Longrightarrow> ln_filter self (db ! i) \<Longrightarrow>
   accepts (matches (map Bundle (query li self db))) (db ! i) = resolvable li self db (db ! i)"
  using ln_items_path [of i db self] ln_filter_link [of self "db ! i"]
  by (auto simp: accepts_def resolvable_def matches_link_target split: option.split)

lemma link_to_resolved [simp]: "link_to (resolved m it) = link_to it"
  by (simp add: resolved_def split: option.split prod.split)

lemma accepts_resolved [simp]: "accepts m (resolved m' it) = accepts m it"
  by (simp add: accepts_def)

lemma unresolved_resolved [simp]: "unresolved (resolved m it) = unresolved it"
  by (simp add: unresolved_def resolved_def split: option.split prod.split)

lemma resolve_loop_Cons:
  "resolve_loop m (i # rest) db =
     (if accepts m (db ! i) then resolve_loop m rest (db[i := resolved m (db ! i)])
      else (Inl (unresolved (db ! i)), db))"
  by (simp add: accepts_def resolved_def Let_def split: option.split prod.split)

lemma resolved_resolved [simp]: "resolved m (resolved m it) = resolved m it"
  by (simp add: resolved_def split: option.split prod.split)

lemma nth_update_resolved:
  "j < length db \<Longrightarrow>
   db[i := resolved m (db ! i)] ! j = (if j = i then resolved m (db ! j) else db ! j)"
  by (auto simp: nth_list_update)

lemma length_resolve_loop: "length (snd (resolve_loop m is db)) = length db"
  by (induction "is" arbitrary: db) (auto simp: resolve_loop_Cons simp del: resolve_loop.simps(2))

lemma resolve_loop_frame:
  "j \<notin> set is \<Longrightarrow> snd (resolve_loop m is db) ! j = db ! j"
  by (induction "is" arbitrary: db)
     (auto simp: resolve_loop_Cons simp del: resolve_loop.simps(2))

lemma resolve_loop_cases:
  "j < length db \<Longrightarrow>
   snd (resolve_loop m is db) ! j = db ! j \<or> snd (resolve_loop m is db) ! j = resolved m (db ! j)"
proof (induction "is" arbitrary: db)
  case Nil show ?case by simp
next
  case (Cons i rest)
  show ?case
  proof (cases "accepts m (db ! i)")
    case False then show ?thesis by (simp add: resolve_loop_Cons del: resolve_loop.simps(2))
  next
    case True
    have "j < length (db[i := resolved m (db ! i)])" using Cons.prems by simp
    from Cons.IH [OF this] True Cons.prems
    show ?thesis
      by (auto simp: resolve_loop_Cons nth_update_resolved simp del: resolve_loop.simps(2) split: if_splits)
  qed
qed

lemma accepts_update:
  "j < length db \<Longrightarrow> accepts m (db[i := resolved m' (db ! i)] ! j) = accepts m (db ! j)"
  by (simp add: nth_update_resolved)

lemma resolve_loop_ok:
  "set is \<subseteq> {..<length db} \<Longrightarrow>
   (fst (resolve_loop m is db) = Inr ()) = (\<forall>i\<in>set is. accepts m (db ! i))"
proof (induction "is" arbitrary: db)
  case Nil show ?case by simp
next
  case (Cons i rest)
  have *: "set rest \<subseteq> {..<length (db[i := resolved m (db ! i)])}" using Cons.prems by simp
  have **: "\<And>j. j \<in> set rest \<Longrightarrow> j < length db" using Cons.prems by auto
  show ?case
    using Cons.IH [OF *] **
    by (auto simp: resolve_loop_Cons accepts_update simp del: resolve_loop.simps(2))
qed

lemma resolve_loop_value:
  "set is \<subseteq> {..<length db} \<Longrightarrow> fst (resolve_loop m is db) = Inr () \<Longrightarrow> i \<in> set is \<Longrightarrow>
   snd (resolve_loop m is db) ! i = resolved m (db ! i)"
proof (induction "is" arbitrary: db)
  case Nil then show ?case by simp
next
  case (Cons a rest)
  let ?db = "db[a := resolved m (db ! a)]"
  have a: "accepts m (db ! a)" and ok: "fst (resolve_loop m rest ?db) = Inr ()"
    using Cons.prems(2) by (auto simp: resolve_loop_Cons simp del: resolve_loop.simps(2) split: if_splits)
  have sub: "set rest \<subseteq> {..<length ?db}" using Cons.prems(1) by simp
  have il: "i < length db" using Cons.prems by auto
  have eq: "snd (resolve_loop m (a # rest) db) = snd (resolve_loop m rest ?db)"
    using a by (simp add: resolve_loop_Cons del: resolve_loop.simps(2))
  show ?case
  proof (cases "i \<in> set rest")
    case True
    from Cons.IH [OF sub ok True] il show ?thesis
      unfolding eq by (simp add: nth_update_resolved)
  next
    case False
    then have "i = a" using Cons.prems(3) by simp
    with False il show ?thesis
      unfolding eq by (simp add: resolve_loop_frame nth_update_resolved)
  qed
qed

lemma resolve_loop_fail:
  "set pre \<subseteq> {..<length db} \<Longrightarrow> \<forall>i\<in>set pre. accepts m (db ! i) \<Longrightarrow> f < length db \<Longrightarrow> \<not> accepts m (db ! f) \<Longrightarrow>
   fst (resolve_loop m (pre @ f # post) db) = Inl (unresolved (db ! f)) \<and>
   (\<forall>j. j \<notin> set pre \<longrightarrow> snd (resolve_loop m (pre @ f # post) db) ! j = db ! j) \<and>
   (\<forall>j\<in>set pre. snd (resolve_loop m (pre @ f # post) db) ! j = resolved m (db ! j))"
proof (induction pre arbitrary: db)
  case Nil
  then show ?case by (simp add: resolve_loop_Cons del: resolve_loop.simps(2))
next
  case (Cons a pre)
  let ?db = "db[a := resolved m (db ! a)]"
  have il: "\<And>j. j \<in> set (a # pre) \<Longrightarrow> j < length db" using Cons.prems(1) by auto
  have 1: "set pre \<subseteq> {..<length ?db}" using Cons.prems(1) by simp
  have 2: "\<forall>i\<in>set pre. accepts m (?db ! i)" using Cons.prems(2) il by (simp add: accepts_update)
  have 3: "f < length ?db" using Cons.prems(3) by simp
  have 4: "\<not> accepts m (?db ! f)" using Cons.prems(3,4) by (simp add: accepts_update)
  have a: "accepts m (db ! a)" using Cons.prems(2) by simp
  have eq: "resolve_loop m ((a # pre) @ f # post) db = resolve_loop m (pre @ f # post) ?db"
    using a by (simp add: resolve_loop_Cons del: resolve_loop.simps(2))
  note IH = Cons.IH [OF 1 2 3 4]
  have fa: "f \<noteq> a" using a Cons.prems(4) by auto
  have c1: "fst (resolve_loop m (pre @ f # post) ?db) = Inl (unresolved (db ! f))"
    using IH Cons.prems(3) by (simp add: nth_update_resolved)
  have c2: "snd (resolve_loop m (pre @ f # post) ?db) ! j = db ! j" if "j \<notin> set (a # pre)" for j
    using IH that by simp
  have c3: "snd (resolve_loop m (pre @ f # post) ?db) ! j = resolved m (db ! j)" if "j \<in> set (a # pre)" for j
  proof (cases "j \<in> set pre")
    case True
    then show ?thesis using IH il [OF that] by (simp add: nth_update_resolved)
  next
    case False
    then have "j = a" using that by simp
    then show ?thesis using IH False il [OF that] by (simp add: nth_update_resolved)
  qed
  show ?case unfolding eq using c1 c2 c3 by blast
qed

section \<open>The call as a whole\<close>

lemma resolve_links_fst:
  "fst (resolve_links li self s) =
     fst (resolve_loop (matches (map Bundle (query li self (items s)))) (ln_items self (items s)) (items s))"
  by (simp add: resolve_links_def Let_def)

lemma resolve_links_items:
  "items (snd (resolve_links li self s)) =
     snd (resolve_loop (matches (map Bundle (query li self (items s)))) (ln_items self (items s)) (items s))"
  by (simp add: resolve_links_def Let_def)

lemma resolve_links_publishes: "publishes (snd (resolve_links li self s)) = publishes s"
  by (simp add: resolve_links_def Let_def)

lemma resolve_links_length: "length (items (snd (resolve_links li self s))) = length (items s)"
  by (simp add: resolve_links_items length_resolve_loop)

lemma ln_items_bound: "set (ln_items self db) \<subseteq> {..<length db}"
  by (auto simp: set_ln_items)

lemma resolve_links_ok:
  "(fst (resolve_links li self s) = Inr ()) =
     (\<forall>i<length (items s). ln_filter self (items s ! i) \<longrightarrow> resolvable li self (items s) (items s ! i))"
  unfolding resolve_links_fst resolve_loop_ok [OF ln_items_bound]
  by (auto simp: set_ln_items accepts_resolve)

lemma resolve_links_frame:
  "\<not> ln_filter self (items s ! j) \<Longrightarrow> items (snd (resolve_links li self s)) ! j = items s ! j"
  unfolding resolve_links_items
  by (rule resolve_loop_frame) (simp add: set_ln_items)

lemma resolved_target:
  assumes "i < length db" "ln_filter self (db ! i)" "link_to (db ! i) = Some u"
    "link_target li self db u = Some a"
  shows "resolved (matches (map Bundle (query li self db))) (db ! i) =
     (db ! i)\<lparr>object_key := object_key a, content_type := content_type a\<rparr>"
  using ln_items_path [OF assms(1,2)] assms(3,4)
  by (simp add: resolved_def matches_link_target)

lemma resolve_links_value:
  assumes "fst (resolve_links li self s) = Inr ()" "i < length (items s)" "ln_filter self (items s ! i)"
    "link_to (items s ! i) = Some u" "link_target li self (items s) u = Some a"
  shows "items (snd (resolve_links li self s)) ! i =
     (items s ! i)\<lparr>object_key := object_key a, content_type := content_type a\<rparr>"
proof -
  have "i \<in> set (ln_items self (items s))" using assms(2,3) by (simp add: set_ln_items)
  from resolve_loop_value [OF ln_items_bound assms(1) [unfolded resolve_links_fst] this]
  show ?thesis unfolding resolve_links_items by (simp add: resolved_target [OF assms(2-5)])
qed

lemma ln_items_split:
  assumes "f < length db" "ln_filter self (db ! f)"
  shows "ln_items self db =
     filter (\<lambda>i. ln_filter self (db ! i)) [0..<f] @ f # filter (\<lambda>i. ln_filter self (db ! i)) [Suc f..<length db]"
proof -
  have "[0..<length db] = [0..<f] @ f # [Suc f..<length db]"
    using assms(1) by (metis less_imp_le_nat upt_add_eq_append upt_conv_Cons le_add_diff_inverse plus_nat.add_0 less_eq_nat.simps(1))
  then show ?thesis using assms(2) by (simp add: ln_items_def)
qed

lemma resolve_links_fail:
  assumes "f < length (items s)" "ln_filter self (items s ! f)" "\<not> resolvable li self (items s) (items s ! f)"
    "\<forall>j<f. ln_filter self (items s ! j) \<longrightarrow> resolvable li self (items s) (items s ! j)"
  shows "fst (resolve_links li self s) = Inl (unresolved (items s ! f)) \<and>
     (\<forall>j\<ge>f. items (snd (resolve_links li self s)) ! j = items s ! j)"
proof -
  let ?db = "items s"
  let ?m = "matches (map Bundle (query li self ?db))"
  let ?pre = "filter (\<lambda>i. ln_filter self (?db ! i)) [0..<f]"
  let ?post = "filter (\<lambda>i. ln_filter self (?db ! i)) [Suc f..<length ?db]"
  have 1: "set ?pre \<subseteq> {..<length ?db}" using assms(1) by auto
  have 2: "\<forall>i\<in>set ?pre. accepts ?m (?db ! i)"
    using assms(1,4) by (auto simp: accepts_resolve)
  have 4: "\<not> accepts ?m (?db ! f)" using assms(1-3) by (simp add: accepts_resolve)
  from resolve_loop_fail [OF 1 2 assms(1) 4, of ?post]
  show ?thesis
    unfolding resolve_links_fst resolve_links_items ln_items_split [OF assms(1,2)]
    by auto
qed

lemma find_SomeD: "find P xs = Some x \<Longrightarrow> x \<in> set xs \<and> P x"
  by (induction xs) (auto split: if_splits)

lemma link_target_Some:
  "link_target li self db u = Some a \<Longrightarrow> a \<in> set db \<and> web_uri a = u \<and> in_scope li self a"
  unfolding link_target_def by (drule find_SomeD) simp

lemma link_target_unique:
  assumes "scope_unique li self db" "a \<in> set db" "in_scope li self a"
  shows "link_target li self db (web_uri a) = Some a"
proof (cases "link_target li self db (web_uri a)")
  case None
  then show ?thesis using assms(2,3) by (auto simp: link_target_def find_None_iff)
next
  case (Some b)
  from link_target_Some [OF this]
  have b: "b \<in> set (filter (in_scope li self) db)" "web_uri b = web_uri a" by auto
  have a: "a \<in> set (filter (in_scope li self) db)" using assms(2,3) by simp
  have "inj_on web_uri (set (filter (in_scope li self) db))"
    using assms(1) by (simp add: scope_unique_def distinct_map)
  then have "b = a" using a b by (auto dest: inj_onD)
  then show ?thesis using Some by simp
qed

lemma own_in_scope: "publish_id a = Publish_id self \<Longrightarrow> in_scope li self a"
  by (simp add: in_scope_def)

lemma resolved_form: "\<exists>k t. resolved m it = it\<lparr>object_key := k, content_type := t\<rparr>"
proof (cases "dict_get m (link_to it)")
  case None
  then have "resolved m it = it\<lparr>object_key := object_key it, content_type := content_type it\<rparr>"
    by (simp add: resolved_def)
  then show ?thesis by blast
next
  case (Some kt)
  then have "resolved m it = it\<lparr>object_key := fst kt, content_type := snd kt\<rparr>"
    by (simp add: resolved_def split: prod.split)
  then show ?thesis by blast
qed

lemma resolve_links_row_form:
  assumes "j < length (items s)"
  shows "\<exists>k t. items (snd (resolve_links li self s)) ! j = (items s ! j)\<lparr>object_key := k, content_type := t\<rparr>"
proof -
  let ?m = "matches (map Bundle (query li self (items s)))"
  let ?r = "items (snd (resolve_links li self s)) ! j"
  have "?r = items s ! j \<or> ?r = resolved ?m (items s ! j)"
    unfolding resolve_links_items by (rule resolve_loop_cases [OF assms])
  then show ?thesis
  proof
    assume "?r = items s ! j"
    then have "?r = (items s ! j)\<lparr>object_key := object_key (items s ! j), content_type := content_type (items s ! j)\<rparr>"
      by simp
    then show ?thesis by blast
  next
    assume "?r = resolved ?m (items s ! j)"
    then show ?thesis using resolved_form [of ?m "items s ! j"] by simp
  qed
qed

lemma first_unresolved:
  assumes "i < length (items s)" "ln_filter self (items s ! i)" "\<not> resolvable li self (items s) (items s ! i)"
  shows "\<exists>f\<le>i. ln_filter self (items s ! f) \<and> \<not> resolvable li self (items s) (items s ! f) \<and>
     (\<forall>j<f. ln_filter self (items s ! j) \<longrightarrow> resolvable li self (items s) (items s ! j)) \<and>
     fst (resolve_links li self s) = Inl (unresolved (items s ! f)) \<and>
     (\<forall>j\<ge>f. items (snd (resolve_links li self s)) ! j = items s ! j)"
proof -
  let ?bad = "\<lambda>i. i < length (items s) \<and> ln_filter self (items s ! i) \<and> \<not> resolvable li self (items s) (items s ! i)"
  define f where "f = (LEAST i. ?bad i)"
  have i: "?bad i" using assms by simp
  have f: "?bad f" unfolding f_def using i by (rule LeastI)
  have fi: "f \<le> i" unfolding f_def using i by (rule Least_le)
  have least: "\<And>j. j < f \<Longrightarrow> \<not> ?bad j" unfolding f_def by (rule not_less_Least)
  have before: "\<forall>j<f. ln_filter self (items s ! j) \<longrightarrow> resolvable li self (items s) (items s ! j)"
    using least f by (metis less_trans)
  from resolve_links_fail [of f s self li] f before fi
  show ?thesis by blast
qed



lemma module_global_setenv: "module_LINK_ISOLATION (setenv k v p) = module_LINK_ISOLATION p"
  by (simp add: setenv_def)

lemma module_global_fold:
  "module_LINK_ISOLATION (fold (\<lambda>(k, v). setenv k v) changes p) = module_LINK_ISOLATION p"
proof (induction changes arbitrary: p)
  case Nil
  show ?case by simp
next
  case (Cons c changes)
  obtain k v where c: "c = (k, v)" by (cases c)
  have "module_LINK_ISOLATION (fold (\<lambda>(k, v). setenv k v) (c # changes) p) =
        module_LINK_ISOLATION (fold (\<lambda>(k, v). setenv k v) changes (setenv k v p))"
    by (simp add: c)
  also have "\<dots> = module_LINK_ISOLATION (setenv k v p)" by (rule Cons.IH)
  also have "\<dots> = module_LINK_ISOLATION p" by (rule module_global_setenv)
  finally show ?case .
qed

section \<open>A second call\<close>

lemma web_uri_resolved [simp]: "web_uri (resolved m it) = web_uri it"
  by (simp add: resolved_def split: option.split prod.split)

lemma publish_id_resolved [simp]: "publish_id (resolved m it) = publish_id it"
  by (simp add: resolved_def split: option.split prod.split)

lemma ln_filter_resolved [simp]: "ln_filter self (resolved m it) = ln_filter self it"
  by (simp add: ln_filter_def)

lemma in_scope_resolved [simp]: "in_scope li self (resolved m it) = in_scope li self it"
  by (simp add: in_scope_def)

lemma accepts_truthy:
  "accepts m it \<Longrightarrow> truthy (object_key (resolved m it)) \<and> truthy (content_type (resolved m it))"
  by (cases "dict_get m (link_to it)") (auto simp: accepts_def resolved_def)

lemma resolve_links_rows:
  assumes "fst (resolve_links li self s) = Inr ()" "j < length (items s)"
  shows "items (snd (resolve_links li self s)) ! j =
     (if ln_filter self (items s ! j)
      then resolved (matches (map Bundle (query li self (items s)))) (items s ! j)
      else items s ! j)"
proof (cases "ln_filter self (items s ! j)")
  case False
  then show ?thesis by (simp add: resolve_links_frame)
next
  case True
  then have "j \<in> set (ln_items self (items s))" using assms(2) by (simp add: set_ln_items)
  from resolve_loop_value [OF ln_items_bound assms(1) [unfolded resolve_links_fst] this] True
  show ?thesis by (simp add: resolve_links_items)
qed

lemma resolve_links_accepts:
  assumes "fst (resolve_links li self s) = Inr ()" "j < length (items s)" "ln_filter self (items s ! j)"
  shows "accepts (matches (map Bundle (query li self (items s)))) (items s ! j)"
proof -
  have "j \<in> set (ln_items self (items s))" using assms(2,3) by (simp add: set_ln_items)
  with assms(1) show ?thesis
    unfolding resolve_links_fst resolve_loop_ok [OF ln_items_bound] by blast
qed

lemma find_rel:
  "list_all2 R xs ys \<Longrightarrow> (\<And>a b. R a b \<Longrightarrow> P a = P b) \<Longrightarrow> rel_option R (find P xs) (find P ys)"
proof (induction xs ys rule: list_all2_induct)
  case Nil
  show ?case by simp
next
  case (Cons x xs y ys)
  have "P x = P y" using Cons.hyps(1) by (rule Cons.prems)
  moreover have "rel_option R (find P xs) (find P ys)" using Cons.prems by (rule Cons.IH)
  ultimately show ?case using Cons.hyps(1) by simp
qed

lemma second_call_rows:
  assumes ok: "fst (resolve_links li self s) = Inr ()"
  shows "list_all2 (\<lambda>a b. b = a \<or> (accepts (matches (map Bundle (query li self (items s)))) a \<and>
            b = resolved (matches (map Bundle (query li self (items s)))) a))
          (items s) (items (snd (resolve_links li self s)))"
proof (rule list_all2_all_nthI)
  show "length (items s) = length (items (snd (resolve_links li self s)))"
    by (simp add: resolve_links_length)
next
  fix j assume j: "j < length (items s)"
  show "items (snd (resolve_links li self s)) ! j = items s ! j \<or>
     (accepts (matches (map Bundle (query li self (items s)))) (items s ! j) \<and>
      items (snd (resolve_links li self s)) ! j =
        resolved (matches (map Bundle (query li self (items s)))) (items s ! j))"
    using resolve_links_rows [OF ok j] resolve_links_accepts [OF ok j]
    by (cases "ln_filter self (items s ! j)") simp_all
qed

lemma second_call_ok:
  assumes ok: "fst (resolve_links li self s) = Inr ()"
  shows "fst (resolve_links li self (snd (resolve_links li self s))) = Inr ()"
proof -
  let ?db = "items s"
  let ?db' = "items (snd (resolve_links li self s))"
  let ?m = "matches (map Bundle (query li self ?db))"
  let ?R = "\<lambda>a b. b = a \<or> (accepts ?m a \<and> b = resolved ?m a)"
  have len: "length ?db' = length ?db" by (rule resolve_links_length)
  have rows: "list_all2 ?R ?db ?db'" using ok by (rule second_call_rows)
  have "resolvable li self ?db' (?db' ! i)" if i: "i < length ?db'" and l: "ln_filter self (?db' ! i)" for i
  proof -
    have i': "i < length ?db" using i len by simp
    have row: "?db' ! i = (if ln_filter self (?db ! i) then resolved ?m (?db ! i) else ?db ! i)"
      using ok i' by (rule resolve_links_rows)
    have l': "ln_filter self (?db ! i)" using l row by (cases "ln_filter self (?db ! i)") simp_all
    have lt: "link_to (?db' ! i) = link_to (?db ! i)" using row l' by simp
    have "resolvable li self ?db (?db ! i)" using ok i' l' unfolding resolve_links_ok by blast
    then obtain u a where u: "link_to (?db ! i) = Some u" and a: "link_target li self ?db u = Some a"
      and t: "truthy (object_key a)" "truthy (content_type a)"
      by (auto simp: resolvable_def split: option.splits)
    have "rel_option ?R (find (\<lambda>it. web_uri it = u \<and> in_scope li self it) (rev ?db))
            (find (\<lambda>it. web_uri it = u \<and> in_scope li self it) (rev ?db'))"
    proof (rule find_rel)
      show "list_all2 ?R (rev ?db) (rev ?db')" using rows by (simp only: list_all2_rev)
    next
      fix x y assume "y = x \<or> (accepts ?m x \<and> y = resolved ?m x)"
      then show "(web_uri x = u \<and> in_scope li self x) = (web_uri y = u \<and> in_scope li self y)"
        by (elim disjE conjE) simp_all
    qed
    then obtain a' where a': "link_target li self ?db' u = Some a'" and r: "?R a a'"
      using a unfolding link_target_def by (auto simp: option_rel_Some1)
    have "truthy (object_key a') \<and> truthy (content_type a')"
      using r t accepts_truthy [of ?m a] by (elim disjE conjE) simp_all
    then show ?thesis using lt u a' by (simp add: resolvable_def)
  qed
  then show ?thesis unfolding resolve_links_ok by blast
qed

section \<open>The default scope\<close>

text \<open>
  C8. When the setting is not supplied (the variable is not set, or set to the empty
  string), the scope boolean is true: a process started so resolves in isolated mode.
\<close>

theorem LINK_ISOLATION_default:
  "environ0 ''EXODUS_GW_LINK_ISOLATION'' = None \<or> environ0 ''EXODUS_GW_LINK_ISOLATION'' = Some [] \<Longrightarrow>
   LINK_ISOLATION environ0 \<and>
   call_resolve_links (import_module environ0) self db = resolve_links True self db"
  by (auto simp: LINK_ISOLATION_def import_module_def call_resolve_links_def)

theorem LINK_ISOLATION_default_witness:
  "LINK_ISOLATION Map.empty \<and>
   LINK_ISOLATION [''EXODUS_GW_LINK_ISOLATION'' \<mapsto> []] \<and>
   call_resolve_links (import_module Map.empty) \<lparr>Publish_id = ''p'', env = ''e'', state = ''s'', Publish_updated = None\<rparr>
       \<lparr>publishes = [], items = []\<rparr> =
     resolve_links True \<lparr>Publish_id = ''p'', env = ''e'', state = ''s'', Publish_updated = None\<rparr>
       \<lparr>publishes = [], items = []\<rparr>"
  using LINK_ISOLATION_default [of Map.empty]
    LINK_ISOLATION_default [of "[''EXODUS_GW_LINK_ISOLATION'' \<mapsto> []]"]
  by simp

section \<open>Items without a link\<close>

text \<open>
  C6. An item whose \<^verbatim>\<open>link_to\<close> is empty (\<^verbatim>\<open>None\<close> or the empty string) is left
  as it is by the call, whether the call returns or raises: the second component is the
  session as the call leaves it in both cases. The number of rows does not change.
\<close>

theorem resolve_links_unlinked_unchanged:
  "j < length (items s) \<Longrightarrow> link_to (items s ! j) = None \<or> link_to (items s ! j) = Some [] \<Longrightarrow>
   length (items (snd (resolve_links li self s))) = length (items s) \<and>
   items (snd (resolve_links li self s)) ! j = items s ! j"
  by (auto simp: resolve_links_length ln_filter_def intro!: resolve_links_frame)

theorem resolve_links_unlinked_unchanged_witness:
  "(0::nat) < length (items store_missing) \<and> link_to (items store_missing ! 0) \<noteq> None \<and>
   (2::nat) < length (items store_missing) \<and> link_to (items store_missing ! 2) = None \<and>
   (\<exists>e. fst (resolve_links True pub1 store_missing) = Inl e) \<and>
   items (snd (resolve_links True pub1 store_missing)) ! 0 \<noteq> items store_missing ! 0 \<and>
   length (items (snd (resolve_links True pub1 store_missing))) = length (items store_missing) \<and>
   items (snd (resolve_links True pub1 store_missing)) ! 2 = items store_missing ! 2"
proof -
  have h1: "(2::nat) < length (items store_missing)" by (simp add: store_missing_def)
  have h2: "link_to (items store_missing ! 2) = None \<or> link_to (items store_missing ! 2) = Some []"
    by (simp add: store_missing_def item_a_def)
  have e: "resolve_links True pub1 store_missing =
     (Inl (unresolved item_m), store_missing\<lparr>items := [item_b\<lparr>object_key := Some ''k1'', content_type := Some ''t1''\<rparr>, item_m, item_a, item_c]\<rparr>)"
    by code_simp
  have n: "item_b\<lparr>object_key := Some ''k1'', content_type := Some ''t1''\<rparr> \<noteq> item_b"
    by (simp add: item_b_def)
  from resolve_links_unlinked_unchanged [OF h1 h2, of True pub1] h1 h2 e n
  show ?thesis by (simp add: store_missing_def item_b_def item_a_def)
qed

section \<open>What the call may change\<close>

text \<open>
  C10. In the session the call leaves, every row is the row before the call with at
  most \<^verbatim>\<open>object_key\<close> and \<^verbatim>\<open>content_type\<close> assigned: the id, \<^verbatim>\<open>web_uri\<close>,
  \<^verbatim>\<open>link_to\<close>, \<^verbatim>\<open>dirty\<close>, \<^verbatim>\<open>publish_id\<close> and, within the call, \<^verbatim>\<open>updated\<close>
  are those of before. The handler \<^verbatim>\<open>set_updated\<close>, run on the row afterwards, changes
  \<^verbatim>\<open>updated\<close> and nothing else. The publishes are not touched.
\<close>

theorem resolve_links_changes_only_key_and_type:
  "j < length (items s) \<Longrightarrow>
   publishes (snd (resolve_links li self s)) = publishes s \<and>
   (\<exists>k t. items (snd (resolve_links li self s)) ! j = (items s ! j)\<lparr>object_key := k, content_type := t\<rparr> \<and>
      set_updated now (An_Item (items (snd (resolve_links li self s)) ! j)) =
        An_Item ((items s ! j)\<lparr>object_key := k, content_type := t, Item_updated := now\<rparr>))"
proof -
  assume "j < length (items s)"
  from resolve_links_row_form [OF this, of li self]
  obtain k t where "items (snd (resolve_links li self s)) ! j = (items s ! j)\<lparr>object_key := k, content_type := t\<rparr>"
    by blast
  then show ?thesis by (auto simp: resolve_links_publishes)
qed

theorem resolve_links_changes_only_key_and_type_witness:
  "(1::nat) < length (items store_basic) \<and> ln_filter pub1 (items store_basic ! 1) \<and>
   fst (resolve_links True pub1 store_basic) = Inr () \<and>
   publishes (snd (resolve_links True pub1 store_basic)) = publishes store_basic \<and>
   (\<exists>k t. items (snd (resolve_links True pub1 store_basic)) ! 1 =
      (items store_basic ! 1)\<lparr>object_key := k, content_type := t\<rparr> \<and>
      set_updated 7 (An_Item (items (snd (resolve_links True pub1 store_basic)) ! 1)) =
        An_Item ((items store_basic ! 1)\<lparr>object_key := k, content_type := t, Item_updated := 7\<rparr>))"
proof -
  have h: "(1::nat) < length (items store_basic)" by (simp add: store_basic_def)
  have l: "ln_filter pub1 (items store_basic ! 1)" by code_simp
  have e: "fst (resolve_links True pub1 store_basic) = Inr ()" by code_simp
  from resolve_links_changes_only_key_and_type [OF h, of True pub1 7] h l e
  show ?thesis by blast
qed

section \<open>The first unresolved link\<close>

text \<open>
  C2. If some linked item of the publish does not resolve (its \<^verbatim>\<open>link_to\<close> has no
  target in scope, or the target's \<^verbatim>\<open>object_key\<close> or \<^verbatim>\<open>content_type\<close> is empty),
  the call raises at the first such item \<open>f\<close> in the order of iteration: the exception
  has status 400 and its detail holds the \<^verbatim>\<open>web_uri\<close> of \<open>f\<close> and its link target,
  and no row from \<open>f\<close> on has been assigned to.
\<close>

theorem resolve_links_raises_at_first_unresolved:
  assumes "\<exists>r\<in>set (items s). ln_filter self r \<and> \<not> resolvable li self (items s) r"
  shows "\<exists>f<length (items s). \<exists>u.
     ln_filter self (items s ! f) \<and> link_to (items s ! f) = Some u \<and>
     \<not> resolvable li self (items s) (items s ! f) \<and>
     (\<forall>j<f. ln_filter self (items s ! j) \<longrightarrow> resolvable li self (items s) (items s ! j)) \<and>
     fst (resolve_links li self s) =
       Inl (HTTPException 400
         (''Unable to resolve item object_key:'' @ [CHR 0x0A, CHR 0x09] @ ''URI: '' @
          [CHR 0x27] @ web_uri (items s ! f) @ [CHR 0x27] @ [CHR 0x0A, CHR 0x09] @ ''Link: '' @
          [CHR 0x27] @ u @ [CHR 0x27])) \<and>
     (\<forall>j\<ge>f. items (snd (resolve_links li self s)) ! j = items s ! j)"
proof -
  let ?bad = "\<lambda>i. i < length (items s) \<and> ln_filter self (items s ! i) \<and> \<not> resolvable li self (items s) (items s ! i)"
  from assms obtain i where i: "?bad i" by (auto simp: in_set_conv_nth)
  define f where "f = (LEAST i. ?bad i)"
  have f: "?bad f" unfolding f_def using i by (rule LeastI)
  have least: "\<And>j. j < f \<Longrightarrow> \<not> ?bad j" unfolding f_def by (rule not_less_Least)
  have before: "\<forall>j<f. ln_filter self (items s ! j) \<longrightarrow> resolvable li self (items s) (items s ! j)"
    using least f by (metis less_trans)
  from f obtain u where u: "link_to (items s ! f) = Some u" using ln_filter_link by blast
  from resolve_links_fail [of f s self li] f before
  have "fst (resolve_links li self s) = Inl (unresolved (items s ! f))"
    and "\<forall>j\<ge>f. items (snd (resolve_links li self s)) ! j = items s ! j"
    by blast+
  with f before u show ?thesis
    by (auto simp: unresolved_def intro!: exI [of _ f])
qed

theorem resolve_links_raises_at_first_unresolved_witness:
  "(\<exists>r\<in>set (items store_missing). ln_filter pub1 r \<and> \<not> resolvable True pub1 (items store_missing) r) \<and>
   (\<exists>f<length (items store_missing). \<exists>u.
     ln_filter pub1 (items store_missing ! f) \<and> link_to (items store_missing ! f) = Some u \<and>
     \<not> resolvable True pub1 (items store_missing) (items store_missing ! f) \<and>
     (\<forall>j<f. ln_filter pub1 (items store_missing ! j) \<longrightarrow>
        resolvable True pub1 (items store_missing) (items store_missing ! j)) \<and>
     fst (resolve_links True pub1 store_missing) =
       Inl (HTTPException 400
         (''Unable to resolve item object_key:'' @ [CHR 0x0A, CHR 0x09] @ ''URI: '' @
          [CHR 0x27] @ web_uri (items store_missing ! f) @ [CHR 0x27] @ [CHR 0x0A, CHR 0x09] @ ''Link: '' @
          [CHR 0x27] @ u @ [CHR 0x27])) \<and>
     (\<forall>j\<ge>f. items (snd (resolve_links True pub1 store_missing)) ! j = items store_missing ! j)) \<and>
   fst (resolve_links True pub1 store_missing) =
     Inl (HTTPException 400
       (''Unable to resolve item object_key:'' @ [CHR 0x0A, CHR 0x09] @ ''URI: '' @
          [CHR 0x27] @ ''/m'' @ [CHR 0x27] @ [CHR 0x0A, CHR 0x09] @ ''Link: '' @
          [CHR 0x27] @ ''/missing'' @ [CHR 0x27])) \<and>
   items (snd (resolve_links True pub1 store_missing)) =
     [item_b\<lparr>object_key := Some ''k1'', content_type := Some ''t1''\<rparr>, item_m, item_a, item_c]"
proof -
  have m: "item_m \<in> set (items store_missing)" by (simp add: store_missing_def)
  have l: "ln_filter pub1 item_m" by code_simp
  have r: "\<not> resolvable True pub1 (items store_missing) item_m" by code_simp
  have h: "\<exists>r\<in>set (items store_missing). ln_filter pub1 r \<and> \<not> resolvable True pub1 (items store_missing) r"
    using m l r by blast
  have e1: "fst (resolve_links True pub1 store_missing) =
     Inl (HTTPException 400
       (''Unable to resolve item object_key:'' @ [CHR 0x0A, CHR 0x09] @ ''URI: '' @
          [CHR 0x27] @ ''/m'' @ [CHR 0x27] @ [CHR 0x0A, CHR 0x09] @ ''Link: '' @
          [CHR 0x27] @ ''/missing'' @ [CHR 0x27]))" by code_simp
  have e2: "items (snd (resolve_links True pub1 store_missing)) =
     [item_b\<lparr>object_key := Some ''k1'', content_type := Some ''t1''\<rparr>, item_m, item_a, item_c]"
    by code_simp
  from resolve_links_raises_at_first_unresolved [OF h] h e1 e2
  show ?thesis by blast
qed

section \<open>The scope of the lookup\<close>



section \<open>When the scope setting is read\<close>

text \<open>
  C4, as stated, fails. The claim: the scope a call applies is the one given by the
  configuration at the time of the call. In a process that sets the variable to
  \<^verbatim>\<open>"0"\<close> after the import, the environment says isolation is off, yet the call
  still raises for the link into another publish, where a call without isolation
  returns.
\<close>

theorem scope_read_at_call_counterexample:
  "\<not> LINK_ISOLATION (environ changed_process) \<and>
   fst (call_resolve_links changed_process pub2 store_two) = Inl (unresolved item_b2) \<and>
   fst (resolve_links (LINK_ISOLATION (environ changed_process)) pub2 store_two) = Inr () \<and>
   call_resolve_links changed_process pub2 store_two \<noteq>
     resolve_links (LINK_ISOLATION (environ changed_process)) pub2 store_two"
proof -
  have 1: "\<not> LINK_ISOLATION (environ changed_process)"
    by (simp add: changed_process_def setenv_def import_module_def LINK_ISOLATION_def)
  have 2: "module_LINK_ISOLATION changed_process"
    by (simp add: changed_process_def setenv_def import_module_def LINK_ISOLATION_def)
  have 3: "fst (resolve_links True pub2 store_two) = Inl (unresolved item_b2)" by code_simp
  have 4: "fst (resolve_links False pub2 store_two) = Inr ()" by code_simp
  have c: "call_resolve_links changed_process pub2 store_two = resolve_links True pub2 store_two"
    using 2 by (simp only: call_resolve_links_def simp_thms)
  have r: "resolve_links (LINK_ISOLATION (environ changed_process)) pub2 store_two =
     resolve_links False pub2 store_two"
    using 1 by (simp only: simp_thms)
  have ne: "resolve_links True pub2 store_two \<noteq> resolve_links False pub2 store_two"
  proof
    assume "resolve_links True pub2 store_two = resolve_links False pub2 store_two"
    then have "fst (resolve_links True pub2 store_two) = fst (resolve_links False pub2 store_two)"
      by (rule arg_cong)
    then show False unfolding 3 4 by (rule sum.distinct(1) [THEN notE])
  qed
  show ?thesis unfolding c r using 1 3 4 ne by (intro conjI)
qed

text \<open>
  C4, amended. The scope boolean is computed from the environment once, when the
  module is imported. Every later call uses that value, whatever is written to the
  environment afterwards.
\<close>

theorem scope_fixed_at_import:
  "module_LINK_ISOLATION (import_module e) = LINK_ISOLATION e \<and>
   call_resolve_links (fold (\<lambda>(k, v). setenv k v) changes (import_module e)) self db =
     resolve_links (LINK_ISOLATION e) self db"
  by (simp add: call_resolve_links_def module_global_fold import_module_def)

theorem scope_fixed_at_import_witness:
  "call_resolve_links (fold (\<lambda>(k, v). setenv k v) [(''EXODUS_GW_LINK_ISOLATION'', ''0'')] (import_module Map.empty))
     pub2 store_two = resolve_links True pub2 store_two \<and>
   call_resolve_links (import_module [''EXODUS_GW_LINK_ISOLATION'' \<mapsto> ''0'']) pub2 store_two =
     resolve_links False pub2 store_two"
proof -
  have 1: "LINK_ISOLATION Map.empty" by (simp add: LINK_ISOLATION_def)
  have 2: "\<not> LINK_ISOLATION [''EXODUS_GW_LINK_ISOLATION'' \<mapsto> ''0'']" by (simp add: LINK_ISOLATION_def)
  have a: "call_resolve_links (fold (\<lambda>(k, v). setenv k v) [(''EXODUS_GW_LINK_ISOLATION'', ''0'')] (import_module Map.empty))
     pub2 store_two = resolve_links (LINK_ISOLATION Map.empty) pub2 store_two"
    by (rule scope_fixed_at_import [THEN conjunct2])
  have b: "call_resolve_links (fold (\<lambda>(k, v). setenv k v) [] (import_module [''EXODUS_GW_LINK_ISOLATION'' \<mapsto> ''0'']))
     pub2 store_two = resolve_links (LINK_ISOLATION [''EXODUS_GW_LINK_ISOLATION'' \<mapsto> ''0'']) pub2 store_two"
    by (rule scope_fixed_at_import [THEN conjunct2])
  have b': "call_resolve_links (import_module [''EXODUS_GW_LINK_ISOLATION'' \<mapsto> ''0'']) pub2 store_two =
     resolve_links (LINK_ISOLATION [''EXODUS_GW_LINK_ISOLATION'' \<mapsto> ''0'']) pub2 store_two"
    using b by (simp only: fold.simps id_apply)
  show ?thesis using a b' 1 2 by (simp only: simp_thms)
qed

section \<open>The timestamp on update\<close>

text \<open>
  C7. The handler is registered for \<^verbatim>\<open>before_update\<close> on both classes, once each, and
  for no other event. Run for an update it sets \<^verbatim>\<open>updated\<close> to the current time
  whatever value the entity carried, for an \<^verbatim>\<open>Item\<close> and for a \<^verbatim>\<open>Publish\<close> alike;
  an insert runs no handler.
\<close>

theorem set_updated_on_update:
  "dispatch before_update now (An_Item it) = An_Item (it\<lparr>Item_updated := now\<rparr>) \<and>
   dispatch before_update now (A_Publish p) = A_Publish (p\<lparr>Publish_updated := Some now\<rparr>) \<and>
   length (handlers before_update e) = 1 \<and>
   dispatch before_insert now e = e"
  by (cases e) (simp_all add: dispatch_def handlers_def listeners_def)

section \<open>Copying the target's attributes\<close>

text \<open>
  C1, as stated, fails. The claim: whenever a publish contains an item \<open>A\<close> with
  attributes and an item \<open>B\<close> linking to it, the call returns normally and \<open>B\<close> has
  the attributes of \<open>A\<close>. In \<open>store_dangling\<close> the publish also holds a link to a URI
  that no item has: the call raises for that link and \<open>B\<close> is left without attributes.
  In \<open>store_shadow\<close>, with isolation off, a later row of another publish has the
  \<^verbatim>\<open>web_uri\<close> of \<open>A\<close>: the call returns and \<open>B\<close> has the attributes of that row.
\<close>

theorem resolve_links_copies_target_counterexample:
  "item_a \<in> set (items store_dangling) \<and> publish_id item_a = Publish_id pub1 \<and>
   link_to item_a = None \<and> object_key item_a = Some ''k1'' \<and> content_type item_a = Some ''t1'' \<and>
   items store_dangling ! 2 = item_b \<and> publish_id item_b = Publish_id pub1 \<and>
   link_to item_b = Some (web_uri item_a) \<and> object_key item_b = None \<and>
   fst (resolve_links True pub1 store_dangling) = Inl (unresolved item_m) \<and>
   items (snd (resolve_links True pub1 store_dangling)) ! 2 = item_b \<and>
   item_a \<in> set (items store_shadow) \<and> items store_shadow ! 1 = item_b \<and>
   fst (resolve_links False pub1 store_shadow) = Inr () \<and>
   object_key (items (snd (resolve_links False pub1 store_shadow)) ! 1) = Some ''k2'' \<and>
   content_type (items (snd (resolve_links False pub1 store_shadow)) ! 1) = Some ''t2''"
proof -
  have a: "item_a \<in> set (items store_dangling)" "publish_id item_a = Publish_id pub1"
    "link_to item_a = None" "object_key item_a = Some ''k1''" "content_type item_a = Some ''t1''"
    "items store_dangling ! 2 = item_b" "publish_id item_b = Publish_id pub1"
    "link_to item_b = Some (web_uri item_a)" "object_key item_b = None"
    "item_a \<in> set (items store_shadow)" "items store_shadow ! 1 = item_b"
    by (simp_all add: store_dangling_def store_shadow_def item_a_def item_b_def pub1_def)
  have 1: "fst (resolve_links True pub1 store_dangling) = Inl (unresolved item_m)" by code_simp
  have 2: "items (snd (resolve_links True pub1 store_dangling)) ! 2 = item_b" by code_simp
  have 3: "fst (resolve_links False pub1 store_shadow) = Inr ()" by code_simp
  have 4: "object_key (items (snd (resolve_links False pub1 store_shadow)) ! 1) = Some ''k2''" by code_simp
  have 5: "content_type (items (snd (resolve_links False pub1 store_shadow)) ! 1) = Some ''t2''" by code_simp
  show ?thesis using a 1 2 3 4 5 by (intro conjI)
qed

text \<open>
  C1, amended. Let every linked item of the publish resolve: its link target, the row
  the lookup keeps for its \<^verbatim>\<open>link_to\<close> (the last row in scope with that
  \<^verbatim>\<open>web_uri\<close>; with isolation on and the store's uniqueness constraint, by
  \<open>link_target_unique\<close>, the item of the publish with that \<^verbatim>\<open>web_uri\<close>), exists and
  has a non-empty \<^verbatim>\<open>object_key\<close> and \<^verbatim>\<open>content_type\<close>. Then the call returns
  normally, and afterwards every linked item \<open>B\<close> has the \<^verbatim>\<open>object_key\<close> and
  \<^verbatim>\<open>content_type\<close> its target \<open>A\<close> had when the call started, both non-empty.
\<close>

theorem resolve_links_copies_target:
  assumes "\<forall>B\<in>set (items s). ln_filter self B \<longrightarrow> resolvable li self (items s) B"
  shows "fst (resolve_links li self s) = Inr () \<and>
     (\<forall>b<length (items s). \<forall>u A.
        ln_filter self (items s ! b) \<longrightarrow> link_to (items s ! b) = Some u \<longrightarrow>
        link_target li self (items s) u = Some A \<longrightarrow>
          object_key (items (snd (resolve_links li self s)) ! b) = object_key A \<and>
          content_type (items (snd (resolve_links li self s)) ! b) = content_type A \<and>
          truthy (object_key (items (snd (resolve_links li self s)) ! b)) \<and>
          truthy (content_type (items (snd (resolve_links li self s)) ! b)))"
proof -
  let ?db = "items s"
  have res: "resolvable li self ?db (?db ! b)" if "b < length ?db" "ln_filter self (?db ! b)" for b
  proof -
    have "?db ! b \<in> set ?db" using that(1) by (rule nth_mem)
    with assms that(2) show ?thesis by blast
  qed
  then have ok: "fst (resolve_links li self s) = Inr ()" unfolding resolve_links_ok by blast
  have val: "object_key (items (snd (resolve_links li self s)) ! b) = object_key A \<and>
          content_type (items (snd (resolve_links li self s)) ! b) = content_type A \<and>
          truthy (object_key (items (snd (resolve_links li self s)) ! b)) \<and>
          truthy (content_type (items (snd (resolve_links li self s)) ! b))"
    if b: "b < length ?db" "ln_filter self (?db ! b)" and u: "link_to (?db ! b) = Some u"
      and A: "link_target li self ?db u = Some A" for b u A
  proof -
    have t: "truthy (object_key A) \<and> truthy (content_type A)"
      using res [OF b] u A by (simp add: resolvable_def)
    have "items (snd (resolve_links li self s)) ! b =
        (?db ! b)\<lparr>object_key := object_key A, content_type := content_type A\<rparr>"
      using ok b u A by (rule resolve_links_value)
    then show ?thesis using t by simp
  qed
  show ?thesis using ok val by blast
qed

theorem resolve_links_copies_target_witness:
  "item_a \<in> set (items store_basic) \<and> publish_id item_a = Publish_id pub1 \<and> link_to item_a = None \<and>
   items store_basic ! 1 = item_b \<and> ln_filter pub1 item_b \<and> link_to item_b = Some (web_uri item_a) \<and>
   object_key item_b = None \<and>
   link_target True pub1 (items store_basic) (web_uri item_a) = Some item_a \<and>
   fst (resolve_links True pub1 store_basic) = Inr () \<and>
   object_key (items (snd (resolve_links True pub1 store_basic)) ! 1) = Some ''k1'' \<and>
   content_type (items (snd (resolve_links True pub1 store_basic)) ! 1) = Some ''t1''"
proof -
  have a: "item_a \<in> set (items store_basic)" "publish_id item_a = Publish_id pub1" "link_to item_a = None"
    "object_key item_a = Some ''k1''" "content_type item_a = Some ''t1''"
    by (simp_all add: store_basic_def item_a_def pub1_def)
  have b: "(1::nat) < length (items store_basic)" "items store_basic ! 1 = item_b" "ln_filter pub1 item_b"
    "link_to item_b = Some (web_uri item_a)" "object_key item_b = None" "\<not> ln_filter pub1 item_a"
    by (simp_all add: store_basic_def item_a_def item_b_def pub1_def ln_filter_def)
  have t: "link_target True pub1 (items store_basic) (web_uri item_a) = Some item_a" by code_simp
  have rb: "resolvable True pub1 (items store_basic) item_b" by code_simp
  have h: "\<forall>B\<in>set (items store_basic). ln_filter pub1 B \<longrightarrow> resolvable True pub1 (items store_basic) B"
    using b(6) rb by (simp add: store_basic_def)
  have lb: "ln_filter pub1 (items store_basic ! 1)" "link_to (items store_basic ! 1) = Some (web_uri item_a)"
    using b by simp_all
  from resolve_links_copies_target [OF h] b(1) lb t
  have "fst (resolve_links True pub1 store_basic) = Inr ()"
    and "object_key (items (snd (resolve_links True pub1 store_basic)) ! 1) = object_key item_a"
    and "content_type (items (snd (resolve_links True pub1 store_basic)) ! 1) = content_type item_a"
    by blast+
  then show ?thesis using a b t by (simp only: simp_thms)
qed

section \<open>Chained links\<close>

text \<open>
  C9, as stated, fails. The claim: when the publish contains \<open>C\<close> linking to
  \<^verbatim>\<open>/b\<close> and an item \<open>B\<close> with that \<^verbatim>\<open>web_uri\<close> and an empty attribute, the call
  raises the exception for \<open>C\<close>. In \<open>store_missing\<close> a dangling link comes before
  \<open>C\<close> and the exception is the one for that link. In \<open>store_other\<close>, with isolation
  off, a later row of another publish has the \<^verbatim>\<open>web_uri\<close> of \<open>B\<close> and attributes:
  the call returns and \<open>C\<close> has the attributes of that row.
\<close>

theorem resolve_links_chain_counterexample:
  "items store_missing ! 3 = item_c \<and> publish_id item_c = Publish_id pub1 \<and>
   link_to item_c = Some ''/b'' \<and>
   item_b \<in> set (items store_missing) \<and> publish_id item_b = Publish_id pub1 \<and>
   web_uri item_b = ''/b'' \<and> object_key item_b = None \<and>
   fst (resolve_links True pub1 store_missing) = Inl (unresolved item_m) \<and>
   unresolved item_m \<noteq> unresolved item_c \<and>
   items store_other ! 2 = item_c \<and> item_b \<in> set (items store_other) \<and>
   fst (resolve_links False pub1 store_other) = Inr () \<and>
   object_key (items (snd (resolve_links False pub1 store_other)) ! 2) = Some ''k2''"
proof -
  have a: "items store_missing ! 3 = item_c" "publish_id item_c = Publish_id pub1"
    "link_to item_c = Some ''/b''" "item_b \<in> set (items store_missing)"
    "publish_id item_b = Publish_id pub1" "web_uri item_b = ''/b''" "object_key item_b = None"
    "items store_other ! 2 = item_c" "item_b \<in> set (items store_other)"
    by (simp_all add: store_missing_def store_other_def item_b_def item_c_def pub1_def)
  have 1: "fst (resolve_links True pub1 store_missing) = Inl (unresolved item_m)" by code_simp
  have 2: "unresolved item_m \<noteq> unresolved item_c"
    by (simp add: unresolved_def item_m_def item_c_def)
  have 3: "fst (resolve_links False pub1 store_other) = Inr ()" by code_simp
  have 4: "object_key (items (snd (resolve_links False pub1 store_other)) ! 2) = Some ''k2''" by code_simp
  show ?thesis using a 1 2 3 4 by (intro conjI)
qed

text \<open>
  C9, amended. Item \<open>c\<close> of the publish links to \<open>u\<close>, and the row \<open>B\<close> that the
  lookup keeps for \<open>u\<close> (the last row in scope with that \<^verbatim>\<open>web_uri\<close>) has an empty
  \<^verbatim>\<open>object_key\<close> or \<^verbatim>\<open>content_type\<close> when the call starts. Then the call raises,
  whether or not \<open>B\<close> is itself a link that this call resolves: the exception is the
  one for the first linked item in the order of iteration that does not resolve, which
  is \<open>c\<close> or an item before it, and is \<open>c\<close> when every linked item before \<open>c\<close>
  resolves; and \<open>c\<close> is left as it was. The table of matches is read from the rows as
  they are before the loop.
\<close>

theorem resolve_links_chain:
  assumes "c < length (items s)" "publish_id (items s ! c) = Publish_id self"
      "link_to (items s ! c) = Some u" "u \<noteq> []"
    and "link_target li self (items s) u = Some B"
      "\<not> truthy (object_key B) \<or> \<not> truthy (content_type B)"
  shows "(\<exists>f\<le>c. ln_filter self (items s ! f) \<and>
        \<not> resolvable li self (items s) (items s ! f) \<and>
        (\<forall>j<f. ln_filter self (items s ! j) \<longrightarrow> resolvable li self (items s) (items s ! j)) \<and>
        fst (resolve_links li self s) = Inl (unresolved (items s ! f))) \<and>
     items (snd (resolve_links li self s)) ! c = items s ! c \<and>
     ((\<forall>j<c. ln_filter self (items s ! j) \<longrightarrow> resolvable li self (items s) (items s ! j)) \<longrightarrow>
        fst (resolve_links li self s) = Inl (unresolved (items s ! c)))"
proof -
  let ?db = "items s"
  have lc: "ln_filter self (?db ! c)" using assms(2-4) by (simp add: ln_filter_def)
  have nr: "\<not> resolvable li self ?db (?db ! c)" using assms(3,5,6) by (auto simp: resolvable_def)
  from first_unresolved [OF assms(1) lc nr]
  obtain f where f: "f \<le> c" "ln_filter self (?db ! f)" "\<not> resolvable li self ?db (?db ! f)"
    "\<forall>j<f. ln_filter self (?db ! j) \<longrightarrow> resolvable li self ?db (?db ! j)"
    "fst (resolve_links li self s) = Inl (unresolved (?db ! f))"
    "\<forall>j\<ge>f. items (snd (resolve_links li self s)) ! j = ?db ! j" by blast
  have 1: "\<exists>f\<le>c. ln_filter self (?db ! f) \<and> \<not> resolvable li self ?db (?db ! f) \<and>
        (\<forall>j<f. ln_filter self (?db ! j) \<longrightarrow> resolvable li self ?db (?db ! j)) \<and>
        fst (resolve_links li self s) = Inl (unresolved (?db ! f))"
    using f(1-5) by blast
  have 2: "items (snd (resolve_links li self s)) ! c = ?db ! c" using f(1,6) by simp
  have 3: "fst (resolve_links li self s) = Inl (unresolved (?db ! c))"
    if "\<forall>j<c. ln_filter self (?db ! j) \<longrightarrow> resolvable li self ?db (?db ! j)"
    using resolve_links_fail [OF assms(1) lc nr that] by simp
  show ?thesis using 1 2 3 by blast
qed

theorem resolve_links_chain_witness:
  "items store_chain ! 2 = item_c \<and> publish_id item_c = Publish_id pub1 \<and> link_to item_c = Some ''/b'' \<and>
   items store_chain ! 1 = item_b \<and> publish_id item_b = Publish_id pub1 \<and> web_uri item_b = ''/b'' \<and>
   object_key item_b = None \<and> link_to item_b = Some ''/a'' \<and>
   link_target True pub1 (items store_chain) ''/b'' = Some item_b \<and>
   resolvable True pub1 (items store_chain) item_b \<and>
   fst (resolve_links True pub1 store_chain) = Inl (unresolved item_c) \<and>
   items (snd (resolve_links True pub1 store_chain)) ! 1 =
     item_b\<lparr>object_key := Some ''k1'', content_type := Some ''t1''\<rparr> \<and>
   items (snd (resolve_links True pub1 store_chain)) ! 2 = item_c"
proof -
  have c: "(2::nat) < length (items store_chain)" "publish_id (items store_chain ! 2) = Publish_id pub1"
    "link_to (items store_chain ! 2) = Some ''/b''" "''/b'' \<noteq> []"
    by (simp_all add: store_chain_def item_c_def pub1_def)
  have t: "link_target True pub1 (items store_chain) ''/b'' = Some item_b" by code_simp
  have b: "\<not> truthy (object_key item_b) \<or> \<not> truthy (content_type item_b)"
    by (simp add: item_b_def)
  have rb: "resolvable True pub1 (items store_chain) item_b" by code_simp
  have before: "\<forall>j<2. ln_filter pub1 (items store_chain ! j) \<longrightarrow>
      resolvable True pub1 (items store_chain) (items store_chain ! j)"
  proof (intro allI impI)
    fix j :: nat assume "j < 2" and l: "ln_filter pub1 (items store_chain ! j)"
    then have "j = 0 \<or> j = 1" by arith
    moreover have "\<not> ln_filter pub1 (items store_chain ! 0)"
      by (simp add: store_chain_def item_a_def ln_filter_def)
    moreover have "items store_chain ! 1 = item_b" by (simp add: store_chain_def)
    ultimately show "resolvable True pub1 (items store_chain) (items store_chain ! j)"
      using l rb by (elim disjE) simp_all
  qed
  have e: "items store_chain ! 2 = item_c" "publish_id item_c = Publish_id pub1" "link_to item_c = Some ''/b''"
    "items store_chain ! 1 = item_b" "publish_id item_b = Publish_id pub1" "web_uri item_b = ''/b''"
    "object_key item_b = None" "link_to item_b = Some ''/a''"
    by (simp_all add: store_chain_def item_b_def item_c_def pub1_def)
  have r1: "items (snd (resolve_links True pub1 store_chain)) ! 1 =
     item_b\<lparr>object_key := Some ''k1'', content_type := Some ''t1''\<rparr>"
    by code_simp
  from resolve_links_chain [OF c t b] before
  have "items (snd (resolve_links True pub1 store_chain)) ! 2 = items store_chain ! 2"
    and "fst (resolve_links True pub1 store_chain) = Inl (unresolved (items store_chain ! 2))"
    by blast+
  then show ?thesis using e t rb r1 by (simp only: simp_thms)
qed

section \<open>Calling twice\<close>

text \<open>
  C5, as stated, fails. The claim: after a call that resolved every link, a second
  call changes no item. In \<open>store_stale\<close> the first call gives \<open>item_b_stale\<close> the
  attributes of \<open>item_a\<close> and gives \<open>item_c\<close> the attributes \<open>item_b_stale\<close> had
  before; the second call, which also returns normally, replaces those of \<open>item_c\<close> by
  the new ones of \<open>item_b_stale\<close>.
\<close>

theorem resolve_links_twice_counterexample:
  "fst (resolve_links True pub1 store_stale) = Inr () \<and>
   fst (resolve_links True pub1 (snd (resolve_links True pub1 store_stale))) = Inr () \<and>
   items (snd (resolve_links True pub1 store_stale)) ! 2 =
     item_c\<lparr>object_key := Some ''k0'', content_type := Some ''t0''\<rparr> \<and>
   items (snd (resolve_links True pub1 (snd (resolve_links True pub1 store_stale)))) ! 2 =
     item_c\<lparr>object_key := Some ''k1'', content_type := Some ''t1''\<rparr> \<and>
   snd (resolve_links True pub1 (snd (resolve_links True pub1 store_stale))) \<noteq>
     snd (resolve_links True pub1 store_stale)"
proof -
  have 1: "resolve_links True pub1 store_stale =
     (Inr (), \<lparr>publishes = [pub1], items =
        [item_a, item_b_stale\<lparr>object_key := Some ''k1'', content_type := Some ''t1''\<rparr>,
         item_c\<lparr>object_key := Some ''k0'', content_type := Some ''t0''\<rparr>]\<rparr>)"
    by code_simp
  have 2: "resolve_links True pub1 \<lparr>publishes = [pub1], items =
        [item_a, item_b_stale\<lparr>object_key := Some ''k1'', content_type := Some ''t1''\<rparr>,
         item_c\<lparr>object_key := Some ''k0'', content_type := Some ''t0''\<rparr>]\<rparr> =
     (Inr (), \<lparr>publishes = [pub1], items =
        [item_a, item_b_stale\<lparr>object_key := Some ''k1'', content_type := Some ''t1''\<rparr>,
         item_c\<lparr>object_key := Some ''k1'', content_type := Some ''t1''\<rparr>]\<rparr>)"
    by code_simp
  have 3: "item_c\<lparr>object_key := Some ''k1'', content_type := Some ''t1''\<rparr> \<noteq>
     item_c\<lparr>object_key := Some ''k0'', content_type := Some ''t0''\<rparr>"
    by (simp add: item_c_def)
  show ?thesis unfolding 1 snd_conv fst_conv 2 using 3 by simp
qed

text \<open>
  C5, amended. After a call that returned normally a second call returns normally
  too. It assigns to every linked item the \<^verbatim>\<open>object_key\<close> and \<^verbatim>\<open>content_type\<close>
  that its link target has after the first call, where the first call assigned those the
  target had before it: the second call changes the attributes of a linked item exactly
  when the first call changed those of its target. An item without a link is as it was
  before the first call. Nothing is stated about \<^verbatim>\<open>updated\<close> of a linked item, which
  a flush stamps again after each assignment.
\<close>

theorem resolve_links_twice:
  assumes "fst (resolve_links li self s) = Inr ()"
  shows "fst (resolve_links li self (snd (resolve_links li self s))) = Inr () \<and>
     (\<forall>b<length (items s). \<forall>u.
        ln_filter self (items s ! b) \<longrightarrow> link_to (items s ! b) = Some u \<longrightarrow>
        (\<exists>a a'. link_target li self (items s) u = Some a \<and>
           link_target li self (items (snd (resolve_links li self s))) u = Some a' \<and>
           object_key (items (snd (resolve_links li self s)) ! b) = object_key a \<and>
           content_type (items (snd (resolve_links li self s)) ! b) = content_type a \<and>
           object_key (items (snd (resolve_links li self (snd (resolve_links li self s)))) ! b) =
             object_key a' \<and>
           content_type (items (snd (resolve_links li self (snd (resolve_links li self s)))) ! b) =
             content_type a')) \<and>
     (\<forall>j<length (items s). \<not> ln_filter self (items s ! j) \<longrightarrow>
        items (snd (resolve_links li self (snd (resolve_links li self s)))) ! j = items s ! j)"
proof -
  let ?s' = "snd (resolve_links li self s)"
  let ?s'' = "snd (resolve_links li self ?s')"
  let ?db = "items s"
  let ?db' = "items ?s'"
  let ?m = "matches (map Bundle (query li self ?db))"
  have ok': "fst (resolve_links li self ?s') = Inr ()" using assms by (rule second_call_ok)
  have len: "length ?db' = length ?db" by (rule resolve_links_length)
  have row: "?db' ! j = (if ln_filter self (?db ! j) then resolved ?m (?db ! j) else ?db ! j)"
    if "j < length ?db" for j using assms that by (rule resolve_links_rows)
  have linked: "\<exists>a a'. link_target li self ?db u = Some a \<and> link_target li self ?db' u = Some a' \<and>
      object_key (?db' ! b) = object_key a \<and> content_type (?db' ! b) = content_type a \<and>
      object_key (items ?s'' ! b) = object_key a' \<and> content_type (items ?s'' ! b) = content_type a'"
    if b: "b < length ?db" "ln_filter self (?db ! b)" and u: "link_to (?db ! b) = Some u" for b u
  proof -
    have "resolvable li self ?db (?db ! b)" using assms b unfolding resolve_links_ok by blast
    then obtain a where a: "link_target li self ?db u = Some a"
      using u by (auto simp: resolvable_def split: option.splits)
    have r1: "?db' ! b = (?db ! b)\<lparr>object_key := object_key a, content_type := content_type a\<rparr>"
      using assms b u a by (rule resolve_links_value)
    have b': "b < length ?db'" using b(1) len by simp
    have l': "ln_filter self (?db' ! b)" using row [OF b(1)] b(2) by simp
    have u': "link_to (?db' ! b) = Some u" using r1 u by simp
    have "resolvable li self ?db' (?db' ! b)" using ok' b' l' unfolding resolve_links_ok by blast
    then obtain a' where a': "link_target li self ?db' u = Some a'"
      using u' by (auto simp: resolvable_def split: option.splits)
    have r2: "items ?s'' ! b = (?db' ! b)\<lparr>object_key := object_key a', content_type := content_type a'\<rparr>"
      using ok' b' l' u' a' by (rule resolve_links_value)
    have "object_key (?db' ! b) = object_key a" "content_type (?db' ! b) = content_type a"
      "object_key (items ?s'' ! b) = object_key a'" "content_type (items ?s'' ! b) = content_type a'"
      by (simp_all add: r1 r2)
    with a a' show ?thesis by blast
  qed
  have unlinked: "items ?s'' ! j = ?db ! j" if j: "j < length ?db" "\<not> ln_filter self (?db ! j)" for j
  proof -
    have 1: "?db' ! j = ?db ! j" using j(2) by (rule resolve_links_frame)
    then have "\<not> ln_filter self (?db' ! j)" using j(2) by simp
    then have "items ?s'' ! j = ?db' ! j" by (rule resolve_links_frame)
    with 1 show ?thesis by simp
  qed
  show ?thesis using ok' linked unlinked by blast
qed

theorem resolve_links_twice_witness:
  "fst (resolve_links True pub1 store_basic) = Inr () \<and>
   items store_basic ! 1 = item_b \<and> ln_filter pub1 item_b \<and> link_to item_b = Some ''/a'' \<and>
   link_target True pub1 (items store_basic) ''/a'' = Some item_a \<and>
   link_target True pub1 (items (snd (resolve_links True pub1 store_basic))) ''/a'' = Some item_a \<and>
   fst (resolve_links True pub1 (snd (resolve_links True pub1 store_basic))) = Inr () \<and>
   object_key (items (snd (resolve_links True pub1 store_basic)) ! 1) = Some ''k1'' \<and>
   content_type (items (snd (resolve_links True pub1 store_basic)) ! 1) = Some ''t1'' \<and>
   object_key (items (snd (resolve_links True pub1 (snd (resolve_links True pub1 store_basic)))) ! 1) =
     Some ''k1'' \<and>
   content_type (items (snd (resolve_links True pub1 (snd (resolve_links True pub1 store_basic)))) ! 1) =
     Some ''t1'' \<and>
   items (snd (resolve_links True pub1 (snd (resolve_links True pub1 store_basic)))) ! 0 = item_a"
proof -
  let ?s' = "snd (resolve_links True pub1 store_basic)"
  let ?s'' = "snd (resolve_links True pub1 ?s')"
  have ok: "fst (resolve_links True pub1 store_basic) = Inr ()" by code_simp
  have b: "(1::nat) < length (items store_basic)" "ln_filter pub1 (items store_basic ! 1)"
    "link_to (items store_basic ! 1) = Some ''/a''" "items store_basic ! 1 = item_b"
    "ln_filter pub1 item_b" "link_to item_b = Some ''/a''"
    "(0::nat) < length (items store_basic)" "\<not> ln_filter pub1 (items store_basic ! 0)"
    "items store_basic ! 0 = item_a"
    by (simp_all add: store_basic_def item_a_def item_b_def pub1_def ln_filter_def)
  have t: "link_target True pub1 (items store_basic) ''/a'' = Some item_a" by code_simp
  have t': "link_target True pub1 (items ?s') ''/a'' = Some item_a" by code_simp
  have a: "object_key item_a = Some ''k1''" "content_type item_a = Some ''t1''"
    by (simp_all add: item_a_def)
  note inst = resolve_links_twice [OF ok]
  from inst have ok': "fst (resolve_links True pub1 ?s') = Inr ()" by (rule conjunct1)
  from inst b(1-3) obtain x x' where x: "link_target True pub1 (items store_basic) ''/a'' = Some x"
    "link_target True pub1 (items ?s') ''/a'' = Some x'"
    "object_key (items ?s' ! 1) = object_key x" "content_type (items ?s' ! 1) = content_type x"
    "object_key (items ?s'' ! 1) = object_key x'" "content_type (items ?s'' ! 1) = content_type x'"
    by blast
  have "x = item_a" "x' = item_a" using x(1,2) t t' by simp_all
  then have v: "object_key (items ?s' ! 1) = Some ''k1''" "content_type (items ?s' ! 1) = Some ''t1''"
    "object_key (items ?s'' ! 1) = Some ''k1''" "content_type (items ?s'' ! 1) = Some ''t1''"
    using x(3-6) a by simp_all
  from inst b(7,8) have "items ?s'' ! 0 = items store_basic ! 0" by blast
  then have z: "items ?s'' ! 0 = item_a" using b(9) by simp
  show ?thesis using ok b(4-6) t t' ok' v z by (intro conjI)
qed

end
